theory Spec2Isabelle
  imports Main "HOL-Library.Word" "HOL-Library.AList"
begin

unbundle bit_operations_syntax

section \<open>Bytes, streams and errors\<close>

text \<open>
  A Python \<open>bytes\<close> object is a list of 8-bit words. An \<open>io.BytesIO\<close> stream is modelled by
  the bytes that are still unread: reading returns the rest of the stream next to the value.
  Python integers are unbounded and are modelled by \<open>int\<close>.
  Every exception the source can raise is a value of \<open>error\<close>; a failed \<open>assert\<close> is named
  after its message.
\<close>

type_synonym byte = "8 word"
type_synonym bytes = "byte list"

datatype error =
    IndexError
  | OverflowError
  | ValueError
  | TypeError
  | UnicodeDecodeError
  | Unexpected_EOF
  | Block_checksum_mismatch
  | Unknown_record_entry_type
  | Incorrect_record_entry_count
  | Invalid_block_type
  | Snappy_error
  | Invalid_restarts
  | Key_too_short
  | Unknown_block_entry_type
  | Invalid_IDs
  | Not_an_IDB_serialized_value
  | Invalid_tag
  | Unexpected_trailing_data
  | Property_count_mismatch
  | Array_length_mismatch
  | Unknown_tag
  | OSError
  | Not_a_valid_table_file
  | Expected_first_record
  | Expecting_another_block
  | Unknown_record_type
  | Out_of_fuel

section \<open>leveldb/util.py\<close>

text \<open>\<open>int.from_bytes(bs, 'little')\<close> and \<open>int.to_bytes(val, n, 'little')\<close>.\<close>

fun from_bytes_le :: "bytes \<Rightarrow> int" where
  "from_bytes_le [] = 0"
| "from_bytes_le (b # bs) = uint b + 256 * from_bytes_le bs"

fun le_digits :: "nat \<Rightarrow> int \<Rightarrow> bytes" where
  "le_digits 0 val = []"
| "le_digits (Suc n) val = word_of_int val # le_digits n (val div 256)"

definition to_bytes_le :: "int \<Rightarrow> nat \<Rightarrow> error + bytes" where
  "to_bytes_le val n =
     (if val < 0 \<or> 256 ^ n \<le> val then Inl OverflowError else Inr (le_digits n val))"

text \<open>
  \<open>read_varint\<close>: the loop state is \<open>is_last_byte\<close>, \<open>byte_index\<close> and \<open>retval\<close>;
  \<open>stream.read(1)[0]\<close> raises \<open>IndexError\<close> at the end of the stream.
\<close>

fun read_varint_loop :: "nat \<Rightarrow> bool \<Rightarrow> nat \<Rightarrow> int \<Rightarrow> bytes \<Rightarrow> error + (int \<times> bytes)" where
  "read_varint_loop max_bytes is_last_byte byte_index retval stream =
     (if \<not> is_last_byte \<and> byte_index < max_bytes then
        (case stream of
           [] \<Rightarrow> Inl IndexError
         | b # rest \<Rightarrow>
             read_varint_loop max_bytes (uint b AND 0x80 = 0) (byte_index + 1)
               (retval + push_bit (7 * byte_index) (uint b AND NOT 0x80)) rest)
      else Inr (retval, stream))"

declare read_varint_loop.simps [simp del]

definition read_varint :: "bytes \<Rightarrow> nat \<Rightarrow> error + (int \<times> bytes)" where
  "read_varint stream max_bytes = read_varint_loop max_bytes False 0 0 stream"

definition read_varint32 :: "bytes \<Rightarrow> error + (int \<times> bytes)" where
  "read_varint32 stream = read_varint stream 5"

definition read_varint64 :: "bytes \<Rightarrow> error + (int \<times> bytes)" where
  "read_varint64 stream = read_varint stream 10"

definition read_sint32 :: "bytes \<Rightarrow> error + (int \<times> bytes)" where
  "read_sint32 stream =
     (case read_varint32 stream of
        Inl e \<Rightarrow> Inl e
      | Inr (n, rest) \<Rightarrow> Inr (drop_bit 1 (n AND 0xFFFFFFFF) XOR - (n AND 1), rest))"

text \<open>\<open>read_safe\<close>: \<open>stream.read(n)\<close> returns at most \<open>n\<close> bytes, the assertion wants all.\<close>

definition read_safe :: "bytes \<Rightarrow> nat \<Rightarrow> error + (bytes \<times> bytes)" where
  "read_safe stream n =
     (let ret = take n stream in
      if length ret = n then Inr (ret, drop n stream) else Inl Unexpected_EOF)"

definition unmask_leveldb_crc32c :: "int \<Rightarrow> int" where
  "unmask_leveldb_crc32c masked =
     (let kMaskDelta = 0xA282EAD8;
          UINT_MAX = 2 ^ 32 - 1;
          val = masked - kMaskDelta;
          val = (val + UINT_MAX + 1) AND UINT_MAX;
          val = (drop_bit 17 val OR push_bit 15 val) AND UINT_MAX
      in val)"

definition bytes_left :: "bytes \<Rightarrow> nat" where
  "bytes_left byte_stream = length byte_stream"

text \<open>
  \<open>int64_to_bytes_compact\<close>: the loop runs over \<open>range(8-1, 0, -1)\<close>, that is over the
  indices 7 down to 1, and stops at the first nonzero byte. The final slice is
  \<open>buf[:-trailing_zero_count]\<close>; in Python \<open>buf[:-0]\<close> is \<open>buf[:0]\<close>, the empty slice.
\<close>

fun count_trailing_zero :: "bytes \<Rightarrow> nat list \<Rightarrow> nat \<Rightarrow> nat" where
  "count_trailing_zero buf [] trailing_zero_count = trailing_zero_count"
| "count_trailing_zero buf (i # is) trailing_zero_count =
     (if buf ! i = 0 then count_trailing_zero buf is (trailing_zero_count + 1)
      else trailing_zero_count)"

definition slice_to_neg :: "bytes \<Rightarrow> nat \<Rightarrow> bytes" where
  "slice_to_neg buf k = (if k = 0 then [] else take (length buf - k) buf)"

definition int64_to_bytes_compact :: "int \<Rightarrow> error + bytes" where
  "int64_to_bytes_compact val =
     (case to_bytes_le val 8 of
        Inl e \<Rightarrow> Inl e
      | Inr buf \<Rightarrow> Inr (slice_to_neg buf (count_trailing_zero buf [7, 6, 5, 4, 3, 2, 1] 0)))"

text \<open>The value of a byte sequence read as little-endian groups of seven bits.\<close>

fun le7_groups :: "bytes \<Rightarrow> int" where
  "le7_groups [] = 0"
| "le7_groups (b # bs) = (uint b AND 0x7F) + 128 * le7_groups bs"

text \<open>\<open>util.read_safe(stream, 1)[0]\<close>: one byte, read with the assertion of \<open>read_safe\<close>.\<close>

definition read_safe_byte :: "bytes \<Rightarrow> error + (byte \<times> bytes)" where
  "read_safe_byte stream =
     (case read_safe stream 1 of
        Inl e \<Rightarrow> Inl e
      | Inr (ret, rest) \<Rightarrow> (case ret of [] \<Rightarrow> Inl IndexError | b # _ \<Rightarrow> Inr (b, rest)))"

text \<open>
  A successful read leaves a shorter stream: the facts behind the termination of the loops
  over streams.
\<close>

lemma read_safe_length:
  "read_safe stream n = Inr (ret, rest) \<Longrightarrow> length rest + n = length stream \<and> length ret = n"
  by (auto simp: read_safe_def Let_def split: if_splits)

lemma read_safe_byte_length:
  "read_safe_byte stream = Inr (b, rest) \<Longrightarrow> length rest < length stream"
  by (auto simp: read_safe_byte_def split: sum.splits list.splits dest!: read_safe_length)

lemma read_varint_loop_Nil:
  "read_varint_loop m l i r [] = (if \<not> l \<and> i < m then Inl IndexError else Inr (r, []))"
  by (subst read_varint_loop.simps) simp

lemma read_varint_loop_Cons:
  "read_varint_loop m l i r (b # s) =
     (if \<not> l \<and> i < m
      then read_varint_loop m (uint b AND 0x80 = 0) (i + 1)
             (r + push_bit (7 * i) (uint b AND NOT 0x80)) s
      else Inr (r, b # s))"
  by (subst read_varint_loop.simps) simp

lemma read_varint_loop_length:
  "read_varint_loop m l i r stream = Inr (v, rest) \<Longrightarrow> length rest \<le> length stream"
proof (induction stream arbitrary: l i r)
  case Nil
  then show ?case
    by (simp add: read_varint_loop_Nil split: if_splits)
next
  case (Cons b s)
  show ?case
  proof (cases "\<not> l \<and> i < m")
    case True
    then have "read_varint_loop m (uint b AND 0x80 = 0) (i + 1)
        (r + push_bit (7 * i) (uint b AND NOT 0x80)) s = Inr (v, rest)"
      using Cons.prems by (simp only: read_varint_loop_Cons simp_thms if_True)
    then have "length rest \<le> length s"
      by (rule Cons.IH)
    then show ?thesis by simp
  next
    case False
    then show ?thesis
      using Cons.prems by (simp only: read_varint_loop_Cons simp_thms if_False) simp
  qed
qed

lemma read_varint32_length:
  "read_varint32 stream = Inr (v, rest) \<Longrightarrow> length rest \<le> length stream"
  by (simp add: read_varint32_def read_varint_def read_varint_loop_length)

lemma read_varint32_shorter:
  assumes "read_varint32 stream = Inr (v, rest)"
  shows "length rest < length stream"
proof (cases stream)
  case Nil
  then show ?thesis
    using assms by (simp add: read_varint32_def read_varint_def read_varint_loop_Nil)
next
  case (Cons b s)
  have "read_varint_loop 5 (uint b AND 0x80 = 0) (0 + 1)
      (0 + push_bit (7 * 0) (uint b AND NOT 0x80)) s = Inr (v, rest)"
    using assms unfolding read_varint32_def read_varint_def Cons
    by (simp only: read_varint_loop_Cons) simp
  then have "length rest \<le> length s"
    by (rule read_varint_loop_length)
  then show ?thesis by (simp add: Cons)
qed

lemma three_varints_shorter:
  assumes "read_varint32 s0 = Inr (x, s1)" "read_varint32 s1 = Inr (xa, s2)"
    "read_varint32 s2 = Inr (xb, s3)"
  shows "length (drop n (drop m s3)) < length s0"
  using read_varint32_shorter [OF assms(1)] read_varint32_shorter [OF assms(2)]
    read_varint32_shorter [OF assms(3)]
  by simp

section \<open>Python dictionaries\<close>

text \<open>
  A \<open>dict\<close> is an association list in insertion order with distinct keys.
  \<open>d[k] = v\<close> is \<open>AList.update k v d\<close> (the value is replaced in place, a new key goes to the
  end), \<open>d.pop(k, None)\<close> returns \<open>map_of d k\<close> and leaves \<open>AList.delete k d\<close>, and
  \<open>d.update(other)\<close> stores the items of \<open>other\<close> one after the other.
\<close>

type_synonym ('k, 'v) dict = "('k \<times> 'v) list"

definition dict_update :: "('k, 'v) dict \<Rightarrow> ('k, 'v) dict \<Rightarrow> ('k, 'v) dict" where
  "dict_update d other = fold (\<lambda>(k, v) acc. AList.update k v acc) other d"

definition keys :: "('k, 'v) dict \<Rightarrow> 'k set" where
  "keys d = fst ` set d"

section \<open>leveldb/crc32c.py\<close>

text \<open>
  Modelled from the spec: the module \<open>leveldb/crc32c.py\<close>, imported by \<open>log_reader.py\<close> and
  \<open>table_reader.py\<close>, is not among the sources. The spec describes it as CRC32C (Castagnoli
  polynomial) with the standard reflected table, where \<open>crc(bytes)\<close> is the CRC of one slice
  and \<open>crc_update(prev, bytes)\<close> continues an existing CRC. The table entry for an index is
  eight shift-and-conditionally-xor steps with the reflected polynomial \<open>0x82F63B78\<close>.
\<close>

definition crc_table :: "int \<Rightarrow> int" where
  "crc_table i =
     ((\<lambda>c. if c AND 1 = 1 then drop_bit 1 c XOR 0x82F63B78 else drop_bit 1 c) ^^ 8) i"

text \<open>
  Modelled from the spec: \<open>crc_update(prev, bytes)\<close> continues an existing CRC, byte by byte
  through the table, with the usual complement of the register before and after.
\<close>

definition crc_update :: "int \<Rightarrow> bytes \<Rightarrow> int" where
  "crc_update prev data =
     fold (\<lambda>b c. crc_table ((c XOR uint b) AND 0xFF) XOR drop_bit 8 c) data (prev XOR 0xFFFFFFFF)
       XOR 0xFFFFFFFF"

text \<open>Modelled from the spec: \<open>crc(bytes)\<close> is the CRC of a single slice.\<close>

definition crc :: "bytes \<Rightarrow> int" where
  "crc data = crc_update 0 data"

section \<open>leveldb/log_reader.py\<close>

text \<open>
  \<open>__get_record\<close> reads the masked checksum, the length and the type of a physical record
  and its data, and compares the stored checksum with the one it calculates: first over the
  type byte, then continued over the data.
\<close>

definition get_record :: "bytes \<Rightarrow> error + ((bytes \<times> byte) \<times> bytes)" where
  "get_record block_stream =
     (case read_safe block_stream 4 of
        Inl e \<Rightarrow> Inl e
      | Inr (c, s1) \<Rightarrow>
     (let expected_checksum_masked = from_bytes_le c;
          expected_checksum = unmask_leveldb_crc32c expected_checksum_masked
      in
      case read_safe s1 2 of
        Inl e \<Rightarrow> Inl e
      | Inr (l, s2) \<Rightarrow>
     (let len = from_bytes_le l in
      case read_safe_byte s2 of
        Inl e \<Rightarrow> Inl e
      | Inr (record_type, s3) \<Rightarrow>
     (case read_safe s3 (nat len) of
        Inl e \<Rightarrow> Inl e
      | Inr (data, s4) \<Rightarrow>
     (let calculated_crc = crc [record_type];
          calculated_crc = crc_update calculated_crc data
      in
      if expected_checksum = calculated_crc then Inr ((data, record_type), s4)
      else Inl Block_checksum_mismatch)))))"

lemma get_record_shorter:
  assumes "get_record block_stream = Inr ((data, record_type), rest)"
  shows "length rest < length block_stream"
proof -
  from assms obtain c s1 l s2 s3 where
    "read_safe block_stream 4 = Inr (c, s1)" "read_safe s1 2 = Inr (l, s2)"
    "read_safe_byte s2 = Inr (record_type, s3)"
    "read_safe s3 (nat (from_bytes_le l)) = Inr (data, rest)"
    by (auto simp: get_record_def Let_def split: sum.splits if_splits)
  then show ?thesis
    by (auto dest!: read_safe_length read_safe_byte_length)
qed

text \<open>
  \<open>get_log_records\<close>, on the contents of the file. The three nested loops are three
  functions that pass on what is left of the file (\<open>log\<close>), what is left of the current
  block and the records found so far: the loop over the blocks, the loop over the records of
  a block, and the loop that collects the fragments of a record that is not \<open>FULL\<close>.
\<close>

definition RECORD_TYPE_FULL :: byte where "RECORD_TYPE_FULL = 0x1"
definition RECORD_TYPE_FIRST :: byte where "RECORD_TYPE_FIRST = 0x2"
definition RECORD_TYPE_MIDDLE :: byte where "RECORD_TYPE_MIDDLE = 0x3"
definition RECORD_TYPE_LAST :: byte where "RECORD_TYPE_LAST = 0x4"

definition records_left_in_block :: "bytes \<Rightarrow> bool" where
  "records_left_in_block stream = (bytes_left stream > 6)"

definition get_next_block :: "bytes \<Rightarrow> (bytes \<times> bytes) option" where
  "get_next_block stream =
     (let buf = take (1024 * 32) stream
      in if buf \<noteq> [] then Some (buf, drop (1024 * 32) stream) else None)"

lemma get_next_block_shorter:
  "get_next_block stream = Some (buf, rest) \<Longrightarrow> length rest < length stream"
  by (cases stream) (auto simp: get_next_block_def Let_def split: if_splits)

function get_log_records_blocks :: "bytes \<Rightarrow> bytes list \<Rightarrow> error + bytes list"
  and get_log_records_block :: "bytes \<Rightarrow> bytes \<Rightarrow> bytes list \<Rightarrow> error + bytes list"
  and get_log_records_fragments ::
    "bytes \<Rightarrow> bytes \<Rightarrow> bytes \<Rightarrow> bytes list \<Rightarrow> error + bytes list" where
  "get_log_records_blocks log records =
     (case get_next_block log of
        None \<Rightarrow> Inr records
      | Some (block, log') \<Rightarrow> get_log_records_block log' block records)"
| "get_log_records_block log block records =
     (if records_left_in_block block then
        (case get_record block of
           Inl e \<Rightarrow> Inl e
         | Inr ((full_record, record_type), block') \<Rightarrow>
             if record_type \<noteq> RECORD_TYPE_FULL then
               (if record_type \<noteq> RECORD_TYPE_FIRST then Inl Expected_first_record
                else get_log_records_fragments log block' full_record records)
             else get_log_records_block log block' (records @ [full_record]))
      else get_log_records_blocks log records)"
| "get_log_records_fragments log block full_record records =
     (case (if \<not> records_left_in_block block
            then (case get_next_block log of
                    None \<Rightarrow> Inl Expecting_another_block
                  | Some (next_block, log') \<Rightarrow> Inr (next_block, log'))
            else Inr (block, log)) of
        Inl e \<Rightarrow> Inl e
      | Inr (cur_block, cur_log) \<Rightarrow>
         (case get_record cur_block of
            Inl e \<Rightarrow> Inl e
          | Inr ((fragment, record_type), block') \<Rightarrow>
              if record_type = RECORD_TYPE_MIDDLE then
                get_log_records_fragments cur_log block' (full_record @ fragment) records
              else if record_type = RECORD_TYPE_LAST then
                get_log_records_block cur_log block' (records @ [full_record @ fragment])
              else Inl Unknown_record_type))"
  by pat_completeness auto

termination
proof (relation "inv_image (less_than <*lex*> less_than)
    (\<lambda>x. case x of
        Inl (log, records) \<Rightarrow> (length log, 0)
      | Inr (Inl (log, block, records)) \<Rightarrow> (length log, Suc (length block))
      | Inr (Inr (log, block, full_record, records)) \<Rightarrow> (length log, Suc (length block)))",
    goal_cases)
  case 1
  show ?case
    by (intro wf_inv_image wf_lex_prod wf_less_than)
next
  case 2
  then show ?case
    by (auto dest!: get_next_block_shorter)
next
  case 3
  then show ?case
    by (auto dest!: get_record_shorter)
next
  case 4
  then show ?case
    by (auto dest!: get_record_shorter)
next
  case 5
  show ?case by simp
next
  case 6
  then show ?case
    by (auto dest!: get_record_shorter get_next_block_shorter split: if_splits option.splits)
next
  case 7
  then show ?case
    by (auto dest!: get_record_shorter get_next_block_shorter split: if_splits option.splits)
qed

declare get_log_records_blocks.simps [simp del]
declare get_log_records_block.simps [simp del]
declare get_log_records_fragments.simps [simp del]

definition get_log_records :: "bytes \<Rightarrow> error + bytes list" where
  "get_log_records log_file = get_log_records_blocks log_file []"

text \<open>
  A Python \<open>set\<close> of keys is a list without repetitions; \<open>s.add(k)\<close> is \<open>List.insert k s\<close>
  and \<open>s.update(t)\<close> adds the elements of \<open>t\<close> one after the other.
\<close>

definition set_update :: "'a list \<Rightarrow> 'a list \<Rightarrow> 'a list" where
  "set_update s t = fold List.insert t s"

text \<open>
  The \<open>while util.bytes_left(record)\<close> loop of \<open>__get_record_entries\<close>, with the two
  collections \<open>entries\<close> (here \<open>ents\<close>) and \<open>deleted_keys\<close> as loop state. A length read by \<open>read_varint32\<close> is never negative.
\<close>

function get_record_entries_loop ::
  "bytes \<Rightarrow> (bytes, bytes) dict \<Rightarrow> bytes list \<Rightarrow> error + ((bytes, bytes) dict \<times> bytes list)" where
  "get_record_entries_loop record ents deleted_keys =
     (if bytes_left record = 0 then Inr (ents, deleted_keys)
      else
       (case read_safe_byte record of
          Inl e \<Rightarrow> Inl e
        | Inr (record_type, r1) \<Rightarrow>
            if record_type = 0x1 then
              (case read_varint32 r1 of
                 Inl e \<Rightarrow> Inl e
               | Inr (key_len, r2) \<Rightarrow>
              (case read_safe r2 (nat key_len) of
                 Inl e \<Rightarrow> Inl e
               | Inr (key, r3) \<Rightarrow>
              (case read_varint32 r3 of
                 Inl e \<Rightarrow> Inl e
               | Inr (val_len, r4) \<Rightarrow>
              (case read_safe r4 (nat val_len) of
                 Inl e \<Rightarrow> Inl e
               | Inr (val, r5) \<Rightarrow>
                   get_record_entries_loop r5 (AList.update key val ents) deleted_keys))))
            else if record_type = 0x0 then
              (case read_varint32 r1 of
                 Inl e \<Rightarrow> Inl e
               | Inr (key_len, r2) \<Rightarrow>
              (case read_safe r2 (nat key_len) of
                 Inl e \<Rightarrow> Inl e
               | Inr (key, r3) \<Rightarrow>
                   get_record_entries_loop r3 ents (List.insert key deleted_keys)))
            else Inl Unknown_record_entry_type))"
  by pat_completeness auto

termination get_record_entries_loop
proof (relation "measure (\<lambda>(record, ents, deleted_keys). length record)", goal_cases)
  case 1
  then show ?case by simp
next
  case 2
  then show ?case
    by (auto dest!: read_safe_byte_length read_varint32_length read_safe_length)
next
  case 3
  then show ?case
    by (auto dest!: read_safe_byte_length read_varint32_length read_safe_length)
qed

declare get_record_entries_loop.simps [simp del]

text \<open>
  \<open>__get_record_entries\<close>: the header (sequence number and declared count), the loop, and the
  assertion that the sizes of the two collections add up to the declared count.
\<close>

definition get_record_header :: "bytes \<Rightarrow> error + (int \<times> int \<times> bytes)" where
  "get_record_header record =
     (case read_safe record 8 of
        Inl e \<Rightarrow> Inl e
      | Inr (s, r1) \<Rightarrow>
     (case read_safe r1 4 of
        Inl e \<Rightarrow> Inl e
      | Inr (c, r2) \<Rightarrow> Inr (from_bytes_le s, from_bytes_le c, r2)))"

definition get_record_entries :: "bytes \<Rightarrow> error + ((bytes, bytes) dict \<times> bytes list)" where
  "get_record_entries record =
     (case get_record_header record of
        Inl e \<Rightarrow> Inl e
      | Inr (sequence, count, r) \<Rightarrow>
     (case get_record_entries_loop r [] [] of
        Inl e \<Rightarrow> Inl e
      | Inr (ents, deleted_keys) \<Rightarrow>
          if int (length ents) + int (length deleted_keys) = count
          then Inr (ents, deleted_keys)
          else Inl Incorrect_record_entry_count))"

text \<open>
  \<open>get_log_entries\<close>: the records of the file are decoded one after the other and merged into
  one map and one set with \<open>update\<close>.
\<close>

fun get_log_entries_loop ::
  "bytes list \<Rightarrow> (bytes, bytes) dict \<Rightarrow> bytes list \<Rightarrow> error + ((bytes, bytes) dict \<times> bytes list)" where
  "get_log_entries_loop [] ents deleted_keys = Inr (ents, deleted_keys)"
| "get_log_entries_loop (record # records) ents deleted_keys =
     (case get_record_entries record of
        Inl e \<Rightarrow> Inl e
      | Inr (record_entries, record_deleted_keys) \<Rightarrow>
          get_log_entries_loop records (dict_update ents record_entries)
            (set_update deleted_keys record_deleted_keys))"

definition get_log_entries :: "bytes \<Rightarrow> error + ((bytes, bytes) dict \<times> bytes list)" where
  "get_log_entries log_file =
     (case get_log_records log_file of
        Inl e \<Rightarrow> Inl e
      | Inr records \<Rightarrow> get_log_entries_loop records [] [])"

text \<open>The count that a record declares in its header, 0 when the header is cut short.\<close>

definition declared_count :: "bytes \<Rightarrow> int" where
  "declared_count record =
     (case get_record_header record of Inl e \<Rightarrow> 0 | Inr (sequence, count, r) \<Rightarrow> count)"

section \<open>leveldb/table_reader.py\<close>

text \<open>
  \<open>BlockHandle\<close>: two varints read from a stream.
\<close>

record BlockHandle =
  offset :: int
  size :: int

definition BlockHandle_init :: "bytes \<Rightarrow> error + (BlockHandle \<times> bytes)" where
  "BlockHandle_init stream =
     (case read_varint64 stream of
        Inl e \<Rightarrow> Inl e
      | Inr (off, s1) \<Rightarrow>
     (case read_varint64 s1 of
        Inl e \<Rightarrow> Inl e
      | Inr (sz, s2) \<Rightarrow> Inr (\<lparr> offset = off, size = sz \<rparr>, s2)))"

text \<open>
  The first part of \<open>Block.__init__\<close>: the block and its five-byte trailer are read from the
  file at the handle's offset and the checksum is validated, calculated first over the data
  and then continued over the type byte. The file object is modelled by its contents;
  \<open>seek\<close> past the end is allowed and the read that follows returns nothing.
\<close>

definition kBlockTrailerSize :: nat where
  "kBlockTrailerSize = 1 + 4"

definition Block_read :: "BlockHandle \<Rightarrow> bytes \<Rightarrow> error + (bytes \<times> byte)" where
  "Block_read handle file =
     (case read_safe (drop (nat (offset handle)) file) (nat (size handle) + kBlockTrailerSize) of
        Inl e \<Rightarrow> Inl e
      | Inr (buf, rest) \<Rightarrow>
     (let data = take (nat (size handle)) buf;
          block_type = buf ! nat (size handle);
          masked_crc_bytes = drop (nat (size handle) + 1) buf;
          masked_crc = from_bytes_le masked_crc_bytes;
          crc_stored = unmask_leveldb_crc32c masked_crc;
          calculated_crc = crc data;
          calculated_crc = crc_update calculated_crc [block_type]
      in
      if crc_stored = calculated_crc then Inr (data, block_type)
      else Inl Block_checksum_mismatch))"

text \<open>What a \<open>Table\<close> exposes of one table file.\<close>

record table =
  table_entries :: "(bytes, bytes) dict"
  table_meta_entries :: "(bytes, bytes) dict"
  table_deleted_entries :: "(bytes, bytes) dict"

text \<open>The three maps that a \<open>Block\<close> exposes.\<close>

record Block =
  block_entries :: "(bytes, bytes) dict"
  block_meta_entries :: "(bytes, bytes) dict"
  block_deleted_entries :: "(bytes, bytes) dict"

text \<open>
  The loop of \<open>Block.__init__\<close> over the entries. \<open>data_stream.tell()\<close> is the length of the
  data minus what is left of the stream. The key and the value are read with a plain
  \<open>read\<close>, which returns fewer bytes at the end of the stream; \<open>prev_key\<close> is \<open>None\<close> before
  the first entry, and slicing it raises \<open>TypeError\<close>.
\<close>

function Block_entries_loop ::
  "bool \<Rightarrow> nat \<Rightarrow> int \<Rightarrow> bytes option \<Rightarrow> bytes \<Rightarrow> Block \<Rightarrow> error + Block" where
  "Block_entries_loop is_meta data_len restart_offset prev_key data_stream blk =
     (if \<not> (int data_len - int (length data_stream) < restart_offset) then Inr blk
      else
       (case read_varint32 data_stream of
          Inl e \<Rightarrow> Inl e
        | Inr (shared, s1) \<Rightarrow>
       (case read_varint32 s1 of
          Inl e \<Rightarrow> Inl e
        | Inr (non_shared, s2) \<Rightarrow>
       (case read_varint32 s2 of
          Inl e \<Rightarrow> Inl e
        | Inr (val_len, s3) \<Rightarrow>
       (case (if shared > 0
              then (case prev_key of None \<Rightarrow> Inl TypeError | Some p \<Rightarrow> Inr (take (nat shared) p))
              else Inr []) of
          Inl e \<Rightarrow> Inl e
        | Inr shared_key_data \<Rightarrow>
       (let key = shared_key_data @ take (nat non_shared) s3;
            s4 = drop (nat non_shared) s3;
            val = take (nat val_len) s4;
            s5 = drop (nat val_len) s4
        in
        if \<not> (length key > 8) then Inl Key_too_short
        else
          let internal_key = from_bytes_le (drop (length key - 8) key);
              user_key = take (length key - 8) key;
              record_type = internal_key AND 0xFF;
              sequence = drop_bit 8 internal_key
          in
          if is_meta then
            Block_entries_loop is_meta data_len restart_offset (Some key) s5
              (blk \<lparr> block_meta_entries := AList.update user_key val (block_meta_entries blk) \<rparr>)
          else if record_type = 0x1 then
            Block_entries_loop is_meta data_len restart_offset (Some key) s5
              (blk \<lparr> block_entries := AList.update user_key val (block_entries blk) \<rparr>)
          else if record_type = 0x0 then
            Block_entries_loop is_meta data_len restart_offset (Some key) s5
              (blk \<lparr> block_deleted_entries := AList.update user_key val (block_deleted_entries blk) \<rparr>)
          else Inl Unknown_block_entry_type))))))"
  by pat_completeness auto

termination Block_entries_loop
proof (relation "measure (\<lambda>(is_meta, data_len, restart_offset, prev_key, data_stream, blk).
    length data_stream)", goal_cases)
  case 1
  then show ?case by simp
next
  case (2 is_meta data_len restart_offset prev_key data_stream blk b x y ba xa ya bb xb yb bc xc
      xd xe xf)
  have "length (drop (nat xb) (drop (nat xa) yb)) < length data_stream"
    using three_varints_shorter [of data_stream x y xa ya xb yb] "2"(2-7) by simp
  then show ?case
    using "2"(10,12) by simp
next
  case (3 is_meta data_len restart_offset prev_key data_stream blk b x y ba xa ya bb xb yb bc xc
      xd xe xf)
  have "length (drop (nat xb) (drop (nat xa) yb)) < length data_stream"
    using three_varints_shorter [of data_stream x y xa ya xb yb] "3"(2-7) by simp
  then show ?case
    using "3"(10,12) by simp
next
  case (4 is_meta data_len restart_offset prev_key data_stream blk b x y ba xa ya bb xb yb bc xc
      xd xe xf)
  have "length (drop (nat xb) (drop (nat xa) yb)) < length data_stream"
    using three_varints_shorter [of data_stream x y xa ya xb yb] "4"(2-7) by simp
  then show ?case
    using "4"(10,12) by simp
qed

declare Block_entries_loop.simps [simp del]

text \<open>
  \<open>Block.__init__\<close>. \<open>snappy.uncompress\<close> belongs to an external library and is a parameter
  that returns \<open>None\<close> where the library raises. \<open>data[-4:]\<close> is the whole of \<open>data\<close> when
  it is shorter than four bytes, and \<open>//\<close> rounds towards minus infinity as \<open>div\<close> does.
\<close>

definition Block_init ::
  "(bytes \<Rightarrow> bytes option) \<Rightarrow> BlockHandle \<Rightarrow> bytes \<Rightarrow> bool \<Rightarrow> error + Block" where
  "Block_init snappy_uncompress handle file is_meta =
     (case Block_read handle file of
        Inl e \<Rightarrow> Inl e
      | Inr (data, block_type) \<Rightarrow>
     (case (if block_type = 0x0 then Inr data
            else if block_type = 0x1
            then (case snappy_uncompress data of None \<Rightarrow> Inl Snappy_error | Some d \<Rightarrow> Inr d)
            else Inl Invalid_block_type) of
        Inl e \<Rightarrow> Inl e
      | Inr data \<Rightarrow>
     (let max_restarts = (int (length data) - 4) div 4;
          restarts = from_bytes_le (drop (length data - 4) data)
      in
      if \<not> restarts \<le> max_restarts then Inl Invalid_restarts
      else
        let restart_offset = int (length data) - (1 + restarts) * 4
        in Block_entries_loop is_meta (length data) restart_offset None data
             \<lparr> block_entries = [], block_meta_entries = [], block_deleted_entries = [] \<rparr>)))"

text \<open>
  \<open>Table.__init__\<close>, on the contents of the file. \<open>f.seek(-8, 2)\<close> and \<open>f.seek(-40-8, 2)\<close>
  raise \<open>OSError\<close> when the file is shorter than that. The data blocks are read in the order
  of the items of the index block's \<open>entries\<close>; the maps of the table are filled from the
  data blocks only.
\<close>

definition MAGIC :: int where
  "MAGIC = 0xDB4775248B80fB57"

fun read_data_blocks ::
  "(bytes \<Rightarrow> bytes option) \<Rightarrow> bytes \<Rightarrow> (bytes, bytes) dict \<Rightarrow> error + Block list" where
  "read_data_blocks snappy_uncompress file [] = Inr []"
| "read_data_blocks snappy_uncompress file ((key, val) # items) =
     (case BlockHandle_init val of
        Inl e \<Rightarrow> Inl e
      | Inr (data_block_handle, rest) \<Rightarrow>
     (case Block_init snappy_uncompress data_block_handle file False of
        Inl e \<Rightarrow> Inl e
      | Inr data_block \<Rightarrow>
     (case read_data_blocks snappy_uncompress file items of
        Inl e \<Rightarrow> Inl e
      | Inr data_blocks \<Rightarrow> Inr (data_block # data_blocks))))"

fun collect_blocks :: "Block list \<Rightarrow> table \<Rightarrow> table" where
  "collect_blocks [] t = t"
| "collect_blocks (db # dbs) t =
     collect_blocks dbs
       \<lparr> table_entries = dict_update (table_entries t) (block_entries db),
         table_meta_entries = dict_update (table_meta_entries t) (block_meta_entries db),
         table_deleted_entries = dict_update (table_deleted_entries t) (block_deleted_entries db) \<rparr>"

definition Table_init :: "(bytes \<Rightarrow> bytes option) \<Rightarrow> bytes \<Rightarrow> error + table" where
  "Table_init snappy_uncompress file =
     (if length file < 8 then Inl OSError
      else
       (case read_safe (drop (length file - 8) file) 8 of
          Inl e \<Rightarrow> Inl e
        | Inr (m, r0) \<Rightarrow>
            if from_bytes_le m \<noteq> MAGIC then Inl Not_a_valid_table_file
            else if length file < 40 + 8 then Inl OSError
            else
             (case read_safe (drop (length file - (40 + 8)) file) 40 of
                Inl e \<Rightarrow> Inl e
              | Inr (index_meta_blocks, r1) \<Rightarrow>
             (case BlockHandle_init index_meta_blocks of
                Inl e \<Rightarrow> Inl e
              | Inr (metaindex_handle, r2) \<Rightarrow>
             (case BlockHandle_init r2 of
                Inl e \<Rightarrow> Inl e
              | Inr (index_handle, r3) \<Rightarrow>
             (case Block_init snappy_uncompress index_handle file False of
                Inl e \<Rightarrow> Inl e
              | Inr index_block \<Rightarrow>
             (case Block_init snappy_uncompress metaindex_handle file True of
                Inl e \<Rightarrow> Inl e
              | Inr meta_block \<Rightarrow>
             (case read_data_blocks snappy_uncompress file (block_entries index_block) of
                Inl e \<Rightarrow> Inl e
              | Inr data_blocks \<Rightarrow>
                  Inr (collect_blocks data_blocks
                    \<lparr> table_entries = [], table_meta_entries = [],
                      table_deleted_entries = [] \<rparr>)))))))))"

section \<open>leveldb/db.py\<close>

text \<open>The three maps of the snapshot that \<open>DB.__init__\<close> builds.\<close>

record DB =
  entries :: "(bytes, bytes) dict"
  meta_entries :: "(bytes, bytes) dict"
  deleted_entries :: "(bytes, bytes) dict"

text \<open>
  The loop over \<open>manifest.existing_files\<close>: each table file is decoded and updates the three
  maps. An exception of \<open>Table\<close> ends \<open>__init__\<close>.
\<close>

fun read_table_files :: "(bytes \<Rightarrow> bytes option) \<Rightarrow> bytes list \<Rightarrow> DB \<Rightarrow> error + DB" where
  "read_table_files snappy_uncompress [] db = Inr db"
| "read_table_files snappy_uncompress (f # fs) db =
     (case Table_init snappy_uncompress f of
        Inl e \<Rightarrow> Inl e
      | Inr t \<Rightarrow>
          read_table_files snappy_uncompress fs
            \<lparr> entries = dict_update (entries db) (table_entries t),
              meta_entries = dict_update (meta_entries db) (table_meta_entries t),
              deleted_entries = dict_update (deleted_entries db) (table_deleted_entries t) \<rparr>)"

text \<open>\<open>for k in self.deleted_entries: self.entries.pop(k, None)\<close>\<close>

fun purge_deleted :: "bytes list \<Rightarrow> (bytes, bytes) dict \<Rightarrow> (bytes, bytes) dict" where
  "purge_deleted [] es = es"
| "purge_deleted (k # ks) es = purge_deleted ks (AList.delete k es)"

text \<open>
  The loop over \<open>deleted_keys\<close>. \<open>if deleted_val:\<close> tests truthiness: it is false for
  \<open>None\<close> (the key was not in \<open>entries\<close>) and for the empty byte string.
\<close>

fun move_deleted_keys ::
  "bytes list \<Rightarrow> (bytes, bytes) dict \<times> (bytes, bytes) dict \<Rightarrow>
   (bytes, bytes) dict \<times> (bytes, bytes) dict" where
  "move_deleted_keys [] (es, ds) = (es, ds)"
| "move_deleted_keys (k # ks) (es, ds) =
     (let deleted_val = map_of es k;
          es = AList.delete k es
      in case deleted_val of
           None \<Rightarrow> move_deleted_keys ks (es, ds)
         | Some v \<Rightarrow>
             if v \<noteq> [] then move_deleted_keys ks (es, AList.update k v ds)
             else move_deleted_keys ks (es, ds))"

text \<open>
  \<open>DB.__init__\<close> after the manifest has been read. \<open>table_files\<close> are the contents of the
  table files of \<open>manifest.existing_files\<close> in the order of the loop; \<open>log_file\<close> is \<open>None\<close>
  when \<open>manifest.log_number == -1\<close> and otherwise the contents of the log file. The set of
  deleted keys that \<open>get_log_entries\<close> returns is run through in the order of its list.
\<close>

definition DB_init ::
  "(bytes \<Rightarrow> bytes option) \<Rightarrow> bytes list \<Rightarrow> bytes option \<Rightarrow> error + DB" where
  "DB_init snappy_uncompress table_files log_file =
     (case read_table_files snappy_uncompress table_files
             \<lparr> entries = [], meta_entries = [], deleted_entries = [] \<rparr> of
        Inl e \<Rightarrow> Inl e
      | Inr db \<Rightarrow>
     (case (case log_file of
              None \<Rightarrow> Inr (entries db, [])
            | Some f \<Rightarrow>
               (case get_log_entries f of
                  Inl e \<Rightarrow> Inl e
                | Inr (log_entries, deleted_keys) \<Rightarrow>
                    Inr (dict_update (entries db) log_entries, deleted_keys))) of
        Inl e \<Rightarrow> Inl e
      | Inr (es, deleted_keys) \<Rightarrow>
         (let es = purge_deleted (map fst (deleted_entries db)) es;
              (es, ds) = move_deleted_keys deleted_keys (es, deleted_entries db)
          in Inr \<lparr> entries = es, meta_entries = meta_entries db, deleted_entries = ds \<rparr>)))"

section \<open>Example files\<close>

text \<open>
  A log file with two \<open>FULL\<close> physical records of one operation each: the value \<open>"1"\<close> for
  the key \<open>"k"\<close> with sequence number 0, then the value \<open>"2"\<close> for the same key with
  sequence number 1.
\<close>

definition log_put_k_twice :: bytes where
  "log_put_k_twice =
     [0x7C, 0xCF, 0x5E, 0xBA, 0x11, 0x00, 0x01,
      0x00, 0x00, 0x00, 0x00, 0x00, 0x00, 0x00, 0x00, 0x01, 0x00, 0x00, 0x00,
      0x01, 0x01, 0x6B, 0x01, 0x31,
      0xA4, 0x68, 0x10, 0xEB, 0x11, 0x00, 0x01,
      0x01, 0x00, 0x00, 0x00, 0x00, 0x00, 0x00, 0x00, 0x01, 0x00, 0x00, 0x00,
      0x01, 0x01, 0x6B, 0x01, 0x32]"

text \<open>
  A log file with three \<open>FULL\<close> physical records of two operations each: the values \<open>"1"\<close>
  for the key \<open>"k"\<close> and \<open>"5"\<close> for the key \<open>"l"\<close> (sequence number 0), then the value
  \<open>"2"\<close> for the key \<open>"k"\<close> and the deletion of the key \<open>"m"\<close> (sequence number 2), then
  the deletions of the keys \<open>"m"\<close> and \<open>"k"\<close> (sequence number 4).
\<close>

definition log_three_records :: bytes where
  "log_three_records =
     [0x69, 0x1F, 0xB8, 0x68, 0x16, 0x00, 0x01,
      0x00, 0x00, 0x00, 0x00, 0x00, 0x00, 0x00, 0x00, 0x02, 0x00, 0x00, 0x00,
      0x01, 0x01, 0x6B, 0x01, 0x31, 0x01, 0x01, 0x6C, 0x01, 0x35,
      0x4C, 0x75, 0x71, 0x19, 0x14, 0x00, 0x01,
      0x02, 0x00, 0x00, 0x00, 0x00, 0x00, 0x00, 0x00, 0x02, 0x00, 0x00, 0x00,
      0x01, 0x01, 0x6B, 0x01, 0x32, 0x00, 0x01, 0x6D,
      0xF9, 0xA4, 0x5F, 0x50, 0x12, 0x00, 0x01,
      0x04, 0x00, 0x00, 0x00, 0x00, 0x00, 0x00, 0x00, 0x02, 0x00, 0x00, 0x00,
      0x00, 0x01, 0x6D, 0x00, 0x01, 0x6B]"

text \<open>
  A log file with two \<open>FULL\<close> physical records of one operation each: the value \<open>"1"\<close> for
  the key \<open>"k"\<close> with sequence number 0, then the deletion of the same key with sequence
  number 1.
\<close>

definition log_put_k_then_delete_k :: bytes where
  "log_put_k_then_delete_k =
     [0x7C, 0xCF, 0x5E, 0xBA, 0x11, 0x00, 0x01,
      0x00, 0x00, 0x00, 0x00, 0x00, 0x00, 0x00, 0x00, 0x01, 0x00, 0x00, 0x00,
      0x01, 0x01, 0x6B, 0x01, 0x31,
      0x11, 0x93, 0x69, 0x70, 0x0F, 0x00, 0x01,
      0x01, 0x00, 0x00, 0x00, 0x00, 0x00, 0x00, 0x00, 0x01, 0x00, 0x00, 0x00,
      0x00, 0x01, 0x6B]"

text \<open>
  Physical records of a log file with the type \<open>FULL\<close> and the data \<open>"a"\<close>. The first stores
  the masked CRC32C of the type byte followed by the data, the second the masked CRC32C of the
  data followed by the type byte.
\<close>

definition record_a_type_first :: bytes where
  "record_a_type_first = [0xB5, 0xCD, 0x0B, 0xA2, 0x01, 0x00, 0x01, 0x61]"

definition record_a_data_first :: bytes where
  "record_a_data_first = [0x40, 0x0B, 0xC4, 0x35, 0x01, 0x00, 0x01, 0x61]"

text \<open>
  A file that holds, after two other bytes, a block with the data \<open>"ab"\<close>, the block type 1
  and the masked CRC32C of the data followed by the type byte, and one more byte.
\<close>

definition file_with_block_ab :: bytes where
  "file_with_block_ab = [0xAA, 0xBB, 0x61, 0x62, 0x01, 0x45, 0x58, 0xC8, 0x5A, 0xCC]"

section \<open>Verified properties\<close>

subsection \<open>Varints and zigzag integers\<close>

lemma and_not_128: "uint (b :: byte) AND NOT 0x80 = uint b AND 0x7F"
proof (rule bit_eqI)
  fix n
  have e: "(0x80 :: int) = 2 ^ 7" and m: "(0x7F :: int) = mask 7"
    by (simp_all add: mask_eq_exp_minus_1)
  have c: "bit (0x80 :: int) n \<longleftrightarrow> n = 7" "bit (0x7F :: int) n \<longleftrightarrow> n < 7"
    unfolding e m by (simp_all only: bit_exp_iff bit_mask_iff) simp_all
  have "bit (uint b) n \<Longrightarrow> n < 8"
    using bit_imp_le_length [of b n] by (simp add: bit_uint_iff)
  then show "bit (uint b AND NOT 0x80) n = bit (uint b AND 0x7F) n"
    unfolding bit_and_iff bit_not_iff c by auto
qed

lemma and_m129: "uint (b :: byte) AND - 129 = uint b AND 127"
  using and_not_128 [of b] by simp

lemma loop_pre:
  "\<forall>b\<in>set pre. uint b AND 0x80 \<noteq> 0 \<Longrightarrow> i + length pre \<le> m \<Longrightarrow>
   read_varint_loop m False i r (pre @ s) =
   read_varint_loop m False (i + length pre) (r + push_bit (7 * i) (le7_groups pre)) s"
proof (induction pre arbitrary: i r)
  case Nil
  then show ?case by simp
next
  case (Cons b pre)
  have acc: "r + push_bit (7 * i) (uint b AND NOT 0x80) + push_bit (7 * Suc i) (le7_groups pre)
      = r + push_bit (7 * i) (le7_groups (b # pre))"
    by (simp add: push_bit_eq_mult and_m129 algebra_simps power_add)
  have "read_varint_loop m False i r ((b # pre) @ s) =
        read_varint_loop m False (Suc i) (r + push_bit (7 * i) (uint b AND NOT 0x80)) (pre @ s)"
    using Cons.prems by (subst read_varint_loop.simps) simp
  also have "\<dots> = read_varint_loop m False (Suc i + length pre)
        (r + push_bit (7 * i) (uint b AND NOT 0x80) + push_bit (7 * Suc i) (le7_groups pre)) s"
    using Cons.prems by (intro Cons.IH) auto
  finally show ?case
    unfolding acc by simp
qed

lemma loop_last:
  "uint t AND 0x80 = 0 \<Longrightarrow> i < m \<Longrightarrow>
   read_varint_loop m False i r (t # s) = Inr (r + push_bit (7 * i) (le7_groups [t]), s)"
proof -
  have g: "le7_groups [t] = uint t AND NOT 0x80"
    by (simp add: and_m129)
  show "uint t AND 0x80 = 0 \<Longrightarrow> i < m \<Longrightarrow> ?thesis"
    unfolding g by (subst read_varint_loop.simps, simp, subst read_varint_loop.simps) simp
qed

lemma loop_full: "read_varint_loop m False m r s = Inr (r, s)"
  by (subst read_varint_loop.simps) simp

lemma loop_eof: "i < m \<Longrightarrow> read_varint_loop m False i r [] = Inl IndexError"
  by (subst read_varint_loop.simps) simp

lemma le7_groups_append:
  "le7_groups (xs @ ys) = le7_groups xs + push_bit (7 * length xs) (le7_groups ys)"
  by (induction xs) (simp_all add: push_bit_eq_mult algebra_simps power_add)

text \<open>
  Claim C8, as amended. \<open>read_varint\<close> accumulates little-endian groups of seven bits and
  stops at the first byte whose top bit is zero. When \<open>max_bytes\<close> bytes with the top bit
  set have been consumed, the loop condition \<open>byte_index < max_bytes\<close> ends the loop and the
  value accumulated so far is returned: no error is raised. The only failure is
  \<open>IndexError\<close>, when the stream ends before a terminating byte and before \<open>max_bytes\<close>
  bytes were read.
\<close>

theorem read_varint_behaviour:
  "(\<forall>b\<in>set pre. uint b AND 0x80 \<noteq> 0) \<longrightarrow>
     (length pre < max_bytes \<and> uint t AND 0x80 = 0 \<longrightarrow>
        read_varint (pre @ t # rest) max_bytes = Inr (le7_groups (pre @ [t]), rest)) \<and>
     (length pre = max_bytes \<longrightarrow>
        read_varint (pre @ rest) max_bytes = Inr (le7_groups pre, rest)) \<and>
     (length pre < max_bytes \<longrightarrow> read_varint pre max_bytes = Inl IndexError)"
proof (intro impI conjI)
  assume top: "\<forall>b\<in>set pre. uint b AND 0x80 \<noteq> 0"
  {
    assume "length pre < max_bytes \<and> uint t AND 0x80 = 0"
    then show "read_varint (pre @ t # rest) max_bytes = Inr (le7_groups (pre @ [t]), rest)"
      using loop_pre [OF top, of 0 max_bytes 0 "t # rest"]
      by (simp add: read_varint_def loop_last le7_groups_append)
  }
  {
    assume "length pre = max_bytes"
    then show "read_varint (pre @ rest) max_bytes = Inr (le7_groups pre, rest)"
      using loop_pre [OF top, of 0 max_bytes 0 rest]
      by (simp add: read_varint_def loop_full)
  }
  {
    assume "length pre < max_bytes"
    then show "read_varint pre max_bytes = Inl IndexError"
      using loop_pre [OF top, of 0 max_bytes 0 "[]"]
      by (simp add: read_varint_def loop_eof)
  }
qed

text \<open>
  Claim C8 as stated fails: five bytes with the top bit set, read with \<open>max_bytes = 5\<close>,
  give a value and leave the sixth byte unread.
\<close>

theorem read_varint_no_error_counterexample:
  "read_varint [0xFF, 0xFF, 0xFF, 0xFF, 0xFF, 0x01] 5 = Inr (34359738367, [0x01])"
  by code_simp

theorem read_varint_behaviour_witness:
  "read_varint ([0xAC] @ 0x02 # [0x07]) 5 = Inr (300, [0x07]) \<and>
   read_varint ([0x80, 0x80, 0x80, 0x80, 0x80] @ [0x07]) 5 = Inr (0, [0x07]) \<and>
   read_varint [0xAC] 5 = Inl IndexError"
proof -
  have a: "\<forall>b\<in>set [0xAC :: byte]. uint b AND 0x80 \<noteq> 0" by simp
  have b: "\<forall>b\<in>set [0x80, 0x80, 0x80, 0x80, 0x80 :: byte]. uint b AND 0x80 \<noteq> 0" by simp
  show ?thesis
    using read_varint_behaviour [of "[0xAC]" 5 "0x02" "[0x07]"]
      read_varint_behaviour [of "[0x80, 0x80, 0x80, 0x80, 0x80]" 5 "0x02" "[0x07]"]
    by simp
qed

lemma sint_range:
  fixes n :: int
  shows "- (2 ^ 31) \<le> drop_bit 1 (n AND 0xFFFFFFFF) XOR - (n AND 1)
       \<and> drop_bit 1 (n AND 0xFFFFFFFF) XOR - (n AND 1) < 2 ^ 31"
proof -
  define a where "a = n AND 0xFFFFFFFF"
  define x where "x = drop_bit 1 a"
  have m: "(0xFFFFFFFF :: int) = mask 32"
    by (simp add: mask_eq_exp_minus_1)
  have "a = take_bit 32 n"
    unfolding a_def m by (simp add: take_bit_eq_mask)
  then have a: "0 \<le> a" "a < 4294967296"
    using take_bit_int_less_exp [of 32 n] by simp_all
  have x: "0 \<le> x" "x < 2147483648"
    using a unfolding x_def drop_bit_eq_div by auto
  have "n AND 1 = 0 \<or> n AND 1 = 1"
    by (simp add: and_one_eq) presburger
  then have "- (2 ^ 31) \<le> x XOR - (n AND 1) \<and> x XOR - (n AND 1) < 2 ^ 31"
  proof
    assume "n AND 1 = 0"
    then show ?thesis using x by simp
  next
    assume "n AND 1 = 1"
    then have "x XOR - (n AND 1) = - x - 1"
      by (simp add: not_int_def)
    then show ?thesis using x by simp
  qed
  then show ?thesis
    unfolding x_def a_def .
qed

text \<open>
  Claim C10. Whatever \<open>read_sint32\<close> returns lies in the signed 32-bit range: the varint,
  which can be 35 bits wide, is masked with \<open>0xFFFFFFFF\<close> before the zigzag transform.
\<close>

theorem read_sint32_range:
  "read_sint32 stream = Inr (v, rest) \<Longrightarrow> - (2 ^ 31) \<le> v \<and> v < 2 ^ 31"
  using sint_range by (auto simp: read_sint32_def split: sum.splits)

theorem read_sint32_range_witness:
  "read_sint32 [0xFF, 0xFF, 0xFF, 0xFF, 0x7F] = Inr (- 2147483648, []) \<and>
   - (2 ^ 31) \<le> (- 2147483648 :: int) \<and> (- 2147483648 :: int) < 2 ^ 31"
proof -
  have e: "read_sint32 [0xFF, 0xFF, 0xFF, 0xFF, 0x7F] = Inr (- 2147483648, [])"
    by code_simp
  show ?thesis
    using read_sint32_range [OF e] e by simp
qed

subsection \<open>Compact little-endian integers\<close>

text \<open>
  Claim C9 is violated by the code for every value from \<open>2 ^ 56\<close> on: no trailing byte is
  zero, \<open>trailing_zero_count\<close> stays 0, and the slice \<open>buf[:-0]\<close> is empty. The result has
  length 0, not 8, and does not reconstruct the value.
\<close>

theorem int64_to_bytes_compact_large:
  "int64_to_bytes_compact (2 ^ 56) = Inr []"
  by code_simp

subsection \<open>Dictionaries\<close>

lemma keys_dom: "keys d = dom (map_of d)"
  by (simp add: keys_def dom_map_of_conv_image_fst)

lemma keys_Nil [simp]: "keys [] = {}"
  by (simp add: keys_def)

lemma map_of_dict_update_distinct:
  "distinct (map fst other) \<Longrightarrow> map_of (dict_update d other) = map_of d ++ map_of other"
proof (induction other arbitrary: d)
  case Nil
  then show ?case by (simp add: dict_update_def)
next
  case (Cons p other)
  obtain k v where p: "p = (k, v)" by (cases p)
  have "dict_update d (p # other) = dict_update (AList.update k v d) other"
    by (simp add: dict_update_def p)
  moreover have "k \<notin> dom (map_of other)"
    using Cons.prems by (simp add: p dom_map_of_conv_image_fst)
  ultimately show ?case
    using Cons by (auto simp: p update_conv' map_add_def fun_eq_iff domIff split: option.splits)
qed

lemma keys_dict_update: "keys (dict_update d other) = keys d \<union> keys other"
proof (induction other arbitrary: d)
  case Nil
  then show ?case by (simp add: dict_update_def keys_def)
next
  case (Cons p other)
  obtain k v where p: "p = (k, v)" by (cases p)
  have "dict_update d (p # other) = dict_update (AList.update k v d) other"
    by (simp add: dict_update_def p)
  then show ?case
    using Cons.IH [of "AList.update k v d"] by (auto simp: p keys_def dom_update)
qed

subsection \<open>Entries of a log file\<close>

lemma distinct_dict_update:
  "distinct (map fst d) \<Longrightarrow> distinct (map fst (dict_update d other))"
proof (induction other arbitrary: d)
  case Nil
  then show ?case by (simp add: dict_update_def)
next
  case (Cons p other)
  obtain k v where p: "p = (k, v)" by (cases p)
  have "dict_update d (p # other) = dict_update (AList.update k v d) other"
    by (simp add: dict_update_def p)
  then show ?case
    using Cons.IH [of "AList.update k v d"] Cons.prems by (simp add: distinct_update)
qed

lemma set_set_update: "set (set_update s t) = set s \<union> set t"
proof (induction t arbitrary: s)
  case Nil
  then show ?case by (simp add: set_update_def)
next
  case (Cons x t)
  have "set_update s (x # t) = set_update (List.insert x s) t"
    by (simp add: set_update_def)
  then show ?case
    using Cons.IH [of "List.insert x s"] by auto
qed

lemma distinct_set_update: "distinct s \<Longrightarrow> distinct (set_update s t)"
proof (induction t arbitrary: s)
  case Nil
  then show ?case by (simp add: set_update_def)
next
  case (Cons x t)
  have "set_update s (x # t) = set_update (List.insert x s) t"
    by (simp add: set_update_def)
  then show ?case
    using Cons.IH [of "List.insert x s"] Cons.prems by simp
qed

lemma length_keys: "distinct (map fst d) \<Longrightarrow> length d = card (keys d)"
  using distinct_card [of "map fst d"] by (simp add: keys_def)

lemma get_record_entries_count:
  "get_record_entries record = Inr (es, dks) \<Longrightarrow>
   int (length es) + int (length dks) = declared_count record"
  by (auto simp: get_record_entries_def declared_count_def split: sum.splits if_splits)

lemma get_record_entries_loop_distinct:
  "get_record_entries_loop r es dks = Inr (es', dks') \<Longrightarrow> distinct (map fst es) \<Longrightarrow>
   distinct dks \<Longrightarrow> distinct (map fst es') \<and> distinct dks'"
proof (induction r es dks rule: get_record_entries_loop.induct)
  case (1 r es dks)
  show ?case
    using "1.prems" "1.IH"
    by (subst (asm) get_record_entries_loop.simps)
      (auto simp: distinct_update split: if_splits sum.splits)
qed

lemma get_record_entries_distinct:
  "get_record_entries r = Inr (es, dks) \<Longrightarrow> distinct (map fst es) \<and> distinct dks"
  using get_record_entries_loop_distinct [of _ "[]" "[]" es dks]
  by (auto simp: get_record_entries_def split: sum.splits if_splits)

text \<open>
  The loop of \<open>get_log_entries\<close> returns only when every record decodes, and then the two
  collections are the records' collections merged in file order.
\<close>

lemma get_log_entries_loop_fold:
  "get_log_entries_loop records es dks = Inr (live, tombs) \<Longrightarrow>
   map get_record_entries records = map Inr (map (projr \<circ> get_record_entries) records) \<and>
   live = fold (\<lambda>p acc. dict_update acc (fst p)) (map (projr \<circ> get_record_entries) records) es \<and>
   tombs = fold (\<lambda>p acc. set_update acc (snd p)) (map (projr \<circ> get_record_entries) records) dks"
proof (induction records arbitrary: es dks)
  case Nil
  then show ?case by simp
next
  case (Cons r records)
  from Cons.prems obtain re rd where r: "get_record_entries r = Inr (re, rd)"
    and rest: "get_log_entries_loop records (dict_update es re) (set_update dks rd) = Inr (live, tombs)"
    by (auto split: sum.splits)
  show ?case
    using Cons.IH [OF rest] by (simp add: r)
qed

lemma decoded_records_distinct:
  assumes "map get_record_entries records = map Inr ps"
  shows "\<forall>(es, dks) \<in> set ps. distinct (map fst es) \<and> distinct dks"
proof clarify
  fix es dks
  assume "(es, dks) \<in> set ps"
  then have "Inr (es, dks) \<in> set (map get_record_entries records)"
    unfolding assms by simp
  then obtain r where "get_record_entries r = Inr (es, dks)"
    by auto
  then show "distinct (map fst es) \<and> distinct dks"
    by (rule get_record_entries_distinct)
qed

lemma decoded_records_count:
  "map get_record_entries records = map Inr ps \<Longrightarrow>
   map (\<lambda>(es, dks). int (length es) + int (length dks)) ps = map declared_count records"
proof (induction records arbitrary: ps)
  case Nil
  then show ?case by simp
next
  case (Cons r records)
  from Cons.prems obtain p ps' where ps: "ps = p # ps'" and r: "get_record_entries r = Inr p"
    and rest: "map get_record_entries records = map Inr ps'"
    by (cases ps) auto
  obtain es dks where p: "p = (es, dks)" by (cases p)
  show ?case
    using Cons.IH [OF rest] get_record_entries_count [of r es dks] r by (simp add: ps p)
qed

lemma fold_dict_update_props:
  assumes "\<forall>(es, dks) \<in> set ps. distinct (map fst es)" and "distinct (map fst d)"
  shows "distinct (map fst (fold (\<lambda>p acc. dict_update acc (fst p)) ps d)) \<and>
         keys (fold (\<lambda>p acc. dict_update acc (fst p)) ps d)
           = keys d \<union> set (concat (map (map fst \<circ> fst) ps)) \<and>
         map_of (fold (\<lambda>p acc. dict_update acc (fst p)) ps d)
           = foldl (++) (map_of d) (map (map_of \<circ> fst) ps)"
  using assms
proof (induction ps arbitrary: d)
  case Nil
  then show ?case by simp
next
  case (Cons p ps)
  have d: "distinct (map fst (dict_update d (fst p)))"
    using Cons.prems(2) by (rule distinct_dict_update)
  have p: "distinct (map fst (fst p))"
    using Cons.prems(1) by (cases p) simp
  have ps: "\<forall>(es, dks) \<in> set ps. distinct (map fst es)"
    using Cons.prems(1) by simp
  have k: "keys (dict_update d (fst p)) \<union> set (concat (map (map fst \<circ> fst) ps))
      = keys d \<union> set (concat (map (map fst \<circ> fst) (p # ps)))"
    unfolding keys_dict_update by (auto simp: keys_def)
  have m: "map_of (dict_update d (fst p)) = map_of d ++ map_of (fst p)"
    by (rule map_of_dict_update_distinct [OF p])
  show ?case
    using Cons.IH [OF ps d] unfolding k m by simp
qed

lemma fold_set_update_props:
  "distinct s \<Longrightarrow>
   distinct (fold (\<lambda>p acc. set_update acc (snd p)) ps s) \<and>
   set (fold (\<lambda>p acc. set_update acc (snd p)) ps s) = set s \<union> set (concat (map snd ps))"
proof (induction ps arbitrary: s)
  case Nil
  then show ?case by simp
next
  case (Cons p ps)
  show ?case
    using Cons.IH [OF distinct_set_update [OF Cons.prems, of "snd p"]]
    by (auto simp: set_set_update)
qed

lemma foldl_map_add_None:
  "\<forall>m \<in> set ms. m k = None \<Longrightarrow> foldl (++) m0 ms k = m0 k"
  by (induction ms arbitrary: m0) (simp_all add: map_add_def)

lemma foldl_map_add_last:
  assumes "ms = ms1 @ m # ms2" and "m k = Some v" and "\<forall>m' \<in> set ms2. m' k = None"
  shows "foldl (++) m0 ms k = Some v"
  using foldl_map_add_None [OF assms(3), of "foldl (++) m0 ms1 ++ m"] assms(2)
  by (simp add: assms(1))

lemma sum_list_lengths:
  "sum_list (map (\<lambda>(es, dks). int (length es) + int (length dks)) ps)
     = int (length (concat (map (map fst \<circ> fst) ps))) + int (length (concat (map snd ps)))"
  by (induction ps) auto

lemma card_length_less: "(card (set xs) < length xs) = (\<not> distinct xs)"
proof
  assume "card (set xs) < length xs"
  then show "\<not> distinct xs"
    using distinct_card [of xs] by auto
next
  assume "\<not> distinct xs"
  then have "card (set xs) \<noteq> length xs"
    using card_distinct [of xs] by auto
  then show "card (set xs) < length xs"
    using card_length [of xs] by linarith
qed

text \<open>
  Claim C7, as amended. The assertion on the declared count is made for each record on its own:
  a record that decodes holds as many distinct written keys plus distinct deleted keys as its
  header declares. When \<open>get_log_entries\<close> returns, every record of the file has decoded
  (\<open>ps\<close> lists the records' maps and sets in file order), and the records are merged with
  \<open>update\<close>: the keys of the live map are the keys written by some record, each with the value
  of the last record that writes it (the records' maps laid over one another in file order), and
  the tombstone set holds the keys deleted by some record. So the two sizes add up to at most the
  sum of the declared counts, and to less exactly when some key is written by two records or
  deleted by two records.
\<close>

theorem log_entry_counts:
  assumes "get_log_records log_file = Inr records"
    and "get_log_entries log_file = Inr (live, tombs)"
  shows "let ps = map (projr \<circ> get_record_entries) records;
             written = concat (map (map fst \<circ> fst) ps);
             deleted = concat (map snd ps);
             total = sum_list (map declared_count records)
         in map get_record_entries records = map Inr ps \<and>
            (\<forall>(es, dks) \<in> set ps. distinct (map fst es) \<and> distinct dks) \<and>
            map (\<lambda>(es, dks). int (length es) + int (length dks)) ps
              = map declared_count records \<and>
            distinct (map fst live) \<and> distinct tombs \<and>
            keys live = set written \<and> set tombs = set deleted \<and>
            map_of live = foldl (++) Map.empty (map (map_of \<circ> fst) ps) \<and>
            (\<forall>ps1 es dks ps2 k v.
                ps = ps1 @ (es, dks) # ps2 \<and> map_of es k = Some v \<and>
                (\<forall>(es', dks') \<in> set ps2. k \<notin> keys es') \<longrightarrow> map_of live k = Some v) \<and>
            int (length live) + int (length tombs) \<le> total \<and>
            (int (length live) + int (length tombs) < total)
              = (\<not> distinct written \<or> \<not> distinct deleted)"
proof -
  define ps where "ps = map (projr \<circ> get_record_entries) records"
  define written where "written = concat (map (map fst \<circ> fst) ps)"
  define deleted where "deleted = concat (map snd ps)"
  define total where "total = sum_list (map declared_count records)"
  from assms have "get_log_entries_loop records [] [] = Inr (live, tombs)"
    by (simp add: get_log_entries_def)
  from get_log_entries_loop_fold [OF this]
  have dec: "map get_record_entries records = map Inr ps"
    and live: "live = fold (\<lambda>p acc. dict_update acc (fst p)) ps []"
    and tombs: "tombs = fold (\<lambda>p acc. set_update acc (snd p)) ps []"
    by (simp_all add: ps_def)
  have dist: "\<forall>(es, dks) \<in> set ps. distinct (map fst es) \<and> distinct dks"
    using dec by (rule decoded_records_distinct)
  then have dist1: "\<forall>(es, dks) \<in> set ps. distinct (map fst es)"
    by auto
  have cnt: "map (\<lambda>(es, dks). int (length es) + int (length dks)) ps
      = map declared_count records"
    using dec by (rule decoded_records_count)
  have L: "distinct (map fst live)" "keys live = set written"
    "map_of live = foldl (++) Map.empty (map (map_of \<circ> fst) ps)"
    using fold_dict_update_props [OF dist1, of "[]"] by (simp_all add: live written_def)
  have T: "distinct tombs" "set tombs = set deleted"
    using fold_set_update_props [of "[]" ps] by (simp_all add: tombs deleted_def)
  have last: "map_of live k = Some v"
    if "ps = ps1 @ (es, dks) # ps2" "map_of es k = Some v"
      "\<forall>(es', dks') \<in> set ps2. k \<notin> keys es'" for ps1 es dks ps2 k v
  proof -
    have eq: "map (map_of \<circ> fst) ps
        = map (map_of \<circ> fst) ps1 @ map_of es # map (map_of \<circ> fst) ps2"
      by (simp add: that(1))
    have none: "\<forall>m' \<in> set (map (map_of \<circ> fst) ps2). m' k = None"
      using that(3) by (auto simp: keys_dom domIff)
    show ?thesis
      unfolding L(3) by (rule foldl_map_add_last [OF eq that(2) none])
  qed
  have tot: "total = int (length written) + int (length deleted)"
    unfolding total_def cnt [symmetric] written_def deleted_def by (rule sum_list_lengths)
  have ll: "length live = card (set written)"
    using length_keys [OF L(1)] by (simp add: L(2))
  have lt: "length tombs = card (set deleted)"
    using distinct_card [OF T(1)] by (simp add: T(2))
  have le: "int (length live) + int (length tombs) \<le> total"
    unfolding tot ll lt using card_length [of written] card_length [of deleted] by simp
  have less: "(int (length live) + int (length tombs) < total)
      = (\<not> distinct written \<or> \<not> distinct deleted)"
    unfolding tot ll lt
    using card_length [of written] card_length [of deleted]
      card_length_less [of written] card_length_less [of deleted]
    by linarith
  show ?thesis
    unfolding Let_def ps_def [symmetric] written_def [symmetric] deleted_def [symmetric]
      total_def [symmetric]
    using dec dist cnt L T last le less by blast
qed

lemma get_next_block_small:
  "stream \<noteq> [] \<Longrightarrow> length stream \<le> 32768 \<Longrightarrow> get_next_block stream = Some (stream, [])"
  by (simp add: get_next_block_def)

lemma get_next_block_Nil: "get_next_block [] = None"
  by (simp add: get_next_block_def)

lemma get_log_records_start:
  "log_file \<noteq> [] \<Longrightarrow> length log_file \<le> 32768 \<Longrightarrow>
   get_log_records log_file = get_log_records_block [] log_file []"
  by (simp add: get_log_records_def get_log_records_blocks.simps get_next_block_small)

lemma get_log_records_block_full:
  assumes "get_record block = Inr ((payload, 0x1), rest)" and "6 < length block"
  shows "get_log_records_block log block records
    = get_log_records_block log rest (records @ [payload])"
  using assms(2)
  by (subst get_log_records_block.simps)
    (simp add: records_left_in_block_def bytes_left_def assms(1) RECORD_TYPE_FULL_def)

lemma get_log_records_block_end:
  "length block \<le> 6 \<Longrightarrow> get_log_records_block [] block records = Inr records"
  by (subst get_log_records_block.simps)
    (simp add: records_left_in_block_def bytes_left_def get_log_records_blocks.simps
      get_next_block_Nil)

lemma get_record_three_records:
  "get_record log_three_records =
     Inr (([0, 0, 0, 0, 0, 0, 0, 0, 2, 0, 0, 0, 1, 1, 0x6B, 1, 0x31, 1, 1, 0x6C, 1, 0x35], 0x1),
          drop 29 log_three_records)"
  "get_record (drop 29 log_three_records) =
     Inr (([2, 0, 0, 0, 0, 0, 0, 0, 2, 0, 0, 0, 1, 1, 0x6B, 1, 0x32, 0, 1, 0x6D], 0x1),
          drop 56 log_three_records)"
  "get_record (drop 56 log_three_records) =
     Inr (([4, 0, 0, 0, 0, 0, 0, 0, 2, 0, 0, 0, 0, 1, 0x6D, 0, 1, 0x6B], 0x1), [])"
  by code_simp+

lemma log_three_records_records:
  "get_log_records log_three_records =
     Inr [[0, 0, 0, 0, 0, 0, 0, 0, 2, 0, 0, 0, 1, 1, 0x6B, 1, 0x31, 1, 1, 0x6C, 1, 0x35],
          [2, 0, 0, 0, 0, 0, 0, 0, 2, 0, 0, 0, 1, 1, 0x6B, 1, 0x32, 0, 1, 0x6D],
          [4, 0, 0, 0, 0, 0, 0, 0, 2, 0, 0, 0, 0, 1, 0x6D, 0, 1, 0x6B]]"
proof -
  have "get_log_records log_three_records = get_log_records_block [] log_three_records []"
    by (rule get_log_records_start) (simp_all add: log_three_records_def)
  also have "\<dots> = get_log_records_block [] (drop 29 log_three_records)
      ([] @ [[0, 0, 0, 0, 0, 0, 0, 0, 2, 0, 0, 0, 1, 1, 0x6B, 1, 0x31, 1, 1, 0x6C, 1, 0x35]])"
    by (rule get_log_records_block_full [OF get_record_three_records(1)])
      (simp add: log_three_records_def)
  also have "\<dots> = get_log_records_block [] (drop 56 log_three_records)
      (([] @ [[0, 0, 0, 0, 0, 0, 0, 0, 2, 0, 0, 0, 1, 1, 0x6B, 1, 0x31, 1, 1, 0x6C, 1, 0x35]])
        @ [[2, 0, 0, 0, 0, 0, 0, 0, 2, 0, 0, 0, 1, 1, 0x6B, 1, 0x32, 0, 1, 0x6D]])"
    by (rule get_log_records_block_full [OF get_record_three_records(2)])
      (simp add: log_three_records_def)
  also have "\<dots> = get_log_records_block [] []
      ((([] @ [[0, 0, 0, 0, 0, 0, 0, 0, 2, 0, 0, 0, 1, 1, 0x6B, 1, 0x31, 1, 1, 0x6C, 1, 0x35]])
        @ [[2, 0, 0, 0, 0, 0, 0, 0, 2, 0, 0, 0, 1, 1, 0x6B, 1, 0x32, 0, 1, 0x6D]])
        @ [[4, 0, 0, 0, 0, 0, 0, 0, 2, 0, 0, 0, 0, 1, 0x6D, 0, 1, 0x6B]])"
    by (rule get_log_records_block_full [OF get_record_three_records(3)])
      (simp add: log_three_records_def)
  finally show ?thesis
    by (simp add: get_log_records_block_end)
qed

lemma three_records_record_entries:
  "get_record_entries
     [0, 0, 0, 0, 0, 0, 0, 0, 2, 0, 0, 0, 1, 1, 0x6B, 1, 0x31, 1, 1, 0x6C, 1, 0x35]
     = Inr ([([0x6B], [0x31]), ([0x6C], [0x35])], [])"
  "get_record_entries [2, 0, 0, 0, 0, 0, 0, 0, 2, 0, 0, 0, 1, 1, 0x6B, 1, 0x32, 0, 1, 0x6D]
     = Inr ([([0x6B], [0x32])], [[0x6D]])"
  "get_record_entries [4, 0, 0, 0, 0, 0, 0, 0, 2, 0, 0, 0, 0, 1, 0x6D, 0, 1, 0x6B]
     = Inr ([], [[0x6B], [0x6D]])"
  by code_simp+

lemma three_records_declared_count:
  "declared_count
     [0, 0, 0, 0, 0, 0, 0, 0, 2, 0, 0, 0, 1, 1, 0x6B, 1, 0x31, 1, 1, 0x6C, 1, 0x35] = 2"
  "declared_count [2, 0, 0, 0, 0, 0, 0, 0, 2, 0, 0, 0, 1, 1, 0x6B, 1, 0x32, 0, 1, 0x6D] = 2"
  "declared_count [4, 0, 0, 0, 0, 0, 0, 0, 2, 0, 0, 0, 0, 1, 0x6D, 0, 1, 0x6B] = 2"
  by code_simp+

lemma log_three_records_entries:
  "get_log_entries log_three_records
     = Inr ([([0x6B], [0x32]), ([0x6C], [0x35])], [[0x6B], [0x6D]])"
  by (simp add: get_log_entries_def log_three_records_records three_records_record_entries
      dict_update_def set_update_def)

lemma get_record_put_k_then_delete_k:
  "get_record log_put_k_then_delete_k =
     Inr (([0, 0, 0, 0, 0, 0, 0, 0, 1, 0, 0, 0, 1, 1, 0x6B, 1, 0x31], 0x1),
          drop 24 log_put_k_then_delete_k)"
  "get_record (drop 24 log_put_k_then_delete_k) =
     Inr (([1, 0, 0, 0, 0, 0, 0, 0, 1, 0, 0, 0, 0, 1, 0x6B], 0x1), [])"
  by code_simp+

lemma log_put_k_then_delete_k_records:
  "get_log_records log_put_k_then_delete_k =
     Inr [[0, 0, 0, 0, 0, 0, 0, 0, 1, 0, 0, 0, 1, 1, 0x6B, 1, 0x31],
          [1, 0, 0, 0, 0, 0, 0, 0, 1, 0, 0, 0, 0, 1, 0x6B]]"
proof -
  have "get_log_records log_put_k_then_delete_k
      = get_log_records_block [] log_put_k_then_delete_k []"
    by (rule get_log_records_start) (simp_all add: log_put_k_then_delete_k_def)
  also have "\<dots> = get_log_records_block [] (drop 24 log_put_k_then_delete_k)
      ([] @ [[0, 0, 0, 0, 0, 0, 0, 0, 1, 0, 0, 0, 1, 1, 0x6B, 1, 0x31]])"
    by (rule get_log_records_block_full [OF get_record_put_k_then_delete_k(1)])
      (simp add: log_put_k_then_delete_k_def)
  also have "\<dots> = get_log_records_block [] []
      (([] @ [[0, 0, 0, 0, 0, 0, 0, 0, 1, 0, 0, 0, 1, 1, 0x6B, 1, 0x31]])
        @ [[1, 0, 0, 0, 0, 0, 0, 0, 1, 0, 0, 0, 0, 1, 0x6B]])"
    by (rule get_log_records_block_full [OF get_record_put_k_then_delete_k(2)])
      (simp add: log_put_k_then_delete_k_def)
  finally show ?thesis
    by (simp add: get_log_records_block_end)
qed

lemma put_k_then_delete_k_record_entries:
  "get_record_entries [0, 0, 0, 0, 0, 0, 0, 0, 1, 0, 0, 0, 1, 1, 0x6B, 1, 0x31]
     = Inr ([([0x6B], [0x31])], [])"
  "get_record_entries [1, 0, 0, 0, 0, 0, 0, 0, 1, 0, 0, 0, 0, 1, 0x6B] = Inr ([], [[0x6B]])"
  by code_simp+

lemma put_k_then_delete_k_declared_count:
  "declared_count [0, 0, 0, 0, 0, 0, 0, 0, 1, 0, 0, 0, 1, 1, 0x6B, 1, 0x31] = 1"
  "declared_count [1, 0, 0, 0, 0, 0, 0, 0, 1, 0, 0, 0, 0, 1, 0x6B] = 1"
  by code_simp+

lemma log_put_k_then_delete_k_entries:
  "get_log_entries log_put_k_then_delete_k = Inr ([([0x6B], [0x31])], [[0x6B]])"
  by (simp add: get_log_entries_def log_put_k_then_delete_k_records
      put_k_then_delete_k_record_entries dict_update_def set_update_def)

theorem log_entry_counts_witness:
  "get_log_records log_three_records =
     Inr [[0, 0, 0, 0, 0, 0, 0, 0, 2, 0, 0, 0, 1, 1, 0x6B, 1, 0x31, 1, 1, 0x6C, 1, 0x35],
          [2, 0, 0, 0, 0, 0, 0, 0, 2, 0, 0, 0, 1, 1, 0x6B, 1, 0x32, 0, 1, 0x6D],
          [4, 0, 0, 0, 0, 0, 0, 0, 2, 0, 0, 0, 0, 1, 0x6D, 0, 1, 0x6B]] \<and>
   get_log_entries log_three_records
     = Inr ([([0x6B], [0x32]), ([0x6C], [0x35])], [[0x6B], [0x6D]]) \<and>
   keys [([0x6B :: byte], [0x32 :: byte]), ([0x6C], [0x35])] = {[0x6B], [0x6C]} \<and>
   map_of [([0x6B :: byte], [0x32 :: byte]), ([0x6C], [0x35])] [0x6B] = Some [0x32] \<and>
   map_of [([0x6B :: byte], [0x32 :: byte]), ([0x6C], [0x35])] [0x6C] = Some [0x35] \<and>
   int (length [([0x6B :: byte], [0x32 :: byte]), ([0x6C], [0x35])])
     + int (length [[0x6B :: byte], [0x6D]]) < 6 \<and>
   get_log_records log_put_k_then_delete_k =
     Inr [[0, 0, 0, 0, 0, 0, 0, 0, 1, 0, 0, 0, 1, 1, 0x6B, 1, 0x31],
          [1, 0, 0, 0, 0, 0, 0, 0, 1, 0, 0, 0, 0, 1, 0x6B]] \<and>
   get_log_entries log_put_k_then_delete_k = Inr ([([0x6B], [0x31])], [[0x6B]]) \<and>
   int (length [([0x6B :: byte], [0x31 :: byte])]) + int (length [[0x6B :: byte]]) = 2"
  using log_entry_counts [OF log_three_records_records log_three_records_entries]
    log_entry_counts [OF log_put_k_then_delete_k_records log_put_k_then_delete_k_entries]
    log_three_records_records log_three_records_entries
    log_put_k_then_delete_k_records log_put_k_then_delete_k_entries
  by (simp add: three_records_record_entries three_records_declared_count
      put_k_then_delete_k_record_entries put_k_then_delete_k_declared_count keys_def)

text \<open>
  Claim C7 as stated fails: the log file below holds two records that each declare one
  operation and write the same key. It decodes to a live map with one key and no deleted
  key, while the declared counts add up to two.
\<close>

lemma get_record_put_k_twice:
  "get_record log_put_k_twice =
     Inr (([0, 0, 0, 0, 0, 0, 0, 0, 1, 0, 0, 0, 1, 1, 0x6B, 1, 0x31], 0x1),
          drop 24 log_put_k_twice)"
  "get_record (drop 24 log_put_k_twice) =
     Inr (([1, 0, 0, 0, 0, 0, 0, 0, 1, 0, 0, 0, 1, 1, 0x6B, 1, 0x32], 0x1), [])"
  by code_simp+

lemma log_put_k_twice_records:
  "get_log_records log_put_k_twice =
     Inr [[0, 0, 0, 0, 0, 0, 0, 0, 1, 0, 0, 0, 1, 1, 0x6B, 1, 0x31],
          [1, 0, 0, 0, 0, 0, 0, 0, 1, 0, 0, 0, 1, 1, 0x6B, 1, 0x32]]"
proof -
  have "get_log_records log_put_k_twice = get_log_records_block [] log_put_k_twice []"
    by (rule get_log_records_start) (simp_all add: log_put_k_twice_def)
  also have "\<dots> = get_log_records_block [] (drop 24 log_put_k_twice)
      ([] @ [[0, 0, 0, 0, 0, 0, 0, 0, 1, 0, 0, 0, 1, 1, 0x6B, 1, 0x31]])"
    by (rule get_log_records_block_full [OF get_record_put_k_twice(1)])
      (simp add: log_put_k_twice_def)
  also have "\<dots> = get_log_records_block [] []
      (([] @ [[0, 0, 0, 0, 0, 0, 0, 0, 1, 0, 0, 0, 1, 1, 0x6B, 1, 0x31]])
        @ [[1, 0, 0, 0, 0, 0, 0, 0, 1, 0, 0, 0, 1, 1, 0x6B, 1, 0x32]])"
    by (rule get_log_records_block_full [OF get_record_put_k_twice(2)])
      (simp add: log_put_k_twice_def)
  finally show ?thesis
    by (simp add: get_log_records_block_end)
qed

lemma put_k_record_entries:
  "get_record_entries [0, 0, 0, 0, 0, 0, 0, 0, 1, 0, 0, 0, 1, 1, 0x6B, 1, 0x31]
     = Inr ([([0x6B], [0x31])], [])"
  "get_record_entries [1, 0, 0, 0, 0, 0, 0, 0, 1, 0, 0, 0, 1, 1, 0x6B, 1, 0x32]
     = Inr ([([0x6B], [0x32])], [])"
  by code_simp+

lemma put_k_declared_count:
  "declared_count [0, 0, 0, 0, 0, 0, 0, 0, 1, 0, 0, 0, 1, 1, 0x6B, 1, 0x31] = 1"
  "declared_count [1, 0, 0, 0, 0, 0, 0, 0, 1, 0, 0, 0, 1, 1, 0x6B, 1, 0x32] = 1"
  by code_simp+

theorem log_entry_counts_counterexample:
  "get_log_records log_put_k_twice =
     Inr [[0, 0, 0, 0, 0, 0, 0, 0, 1, 0, 0, 0, 1, 1, 0x6B, 1, 0x31],
          [1, 0, 0, 0, 0, 0, 0, 0, 1, 0, 0, 0, 1, 1, 0x6B, 1, 0x32]] \<and>
   get_log_entries log_put_k_twice = Inr ([([0x6B], [0x32])], []) \<and>
   sum_list (map declared_count
     [[0, 0, 0, 0, 0, 0, 0, 0, 1, 0, 0, 0, 1, 1, 0x6B, 1, 0x31],
      [1, 0, 0, 0, 0, 0, 0, 0, 1, 0, 0, 0, 1, 1, 0x6B, 1, 0x32]]) = 2"
  by (simp add: get_log_entries_def log_put_k_twice_records put_k_record_entries
      put_k_declared_count dict_update_def set_update_def)

subsection \<open>Checksums of log records and of table blocks\<close>

lemma get_record_eq:
  "get_record s =
     (let n = nat (from_bytes_le (take 2 (drop 4 s)))
      in if length s < 7 + n then Inl Unexpected_EOF
         else if unmask_leveldb_crc32c (from_bytes_le (take 4 s))
                   = crc_update (crc [s ! 6]) (take n (drop 7 s))
         then Inr ((take n (drop 7 s), s ! 6), drop (7 + n) s)
         else Inl Block_checksum_mismatch)"
proof (cases "length s < 7")
  case True
  then show ?thesis
    by (auto simp: get_record_def read_safe_def read_safe_byte_def Let_def)
next
  case False
  then have "drop 6 s = s ! 6 # drop 7 s"
    using Cons_nth_drop_Suc [of 6 s] by simp
  then have "take (Suc 0) (drop 6 s) = [s ! 6]"
    by simp
  with False show ?thesis
    by (auto simp: get_record_def read_safe_def read_safe_byte_def Let_def add.commute
        min_def)
qed

lemma Block_read_eq:
  "Block_read handle file =
     (let off = nat (offset handle); n = nat (size handle)
      in if length file < off + n + 5 then Inl Unexpected_EOF
         else if unmask_leveldb_crc32c (from_bytes_le (take 4 (drop (off + n + 1) file)))
                   = crc_update (crc (take n (drop off file))) [file ! (off + n)]
         then Inr (take n (drop off file), file ! (off + n))
         else Inl Block_checksum_mismatch)"
proof -
  define off where "off = nat (offset handle)"
  define n where "n = nat (size handle)"
  show ?thesis
  proof (cases "length file < off + n + 5")
    case True
    then show ?thesis
      by (auto simp: Block_read_def read_safe_def Let_def kBlockTrailerSize_def
          off_def [symmetric] n_def [symmetric])
  next
    case False
    have a: "take n (take (n + 5) (drop off file)) = take n (drop off file)"
      by (simp add: min_def)
    have b: "take (n + 5) (drop off file) ! n = file ! (off + n)"
      using False by simp
    have c: "drop (n + 1) (take (n + 5) (drop off file)) = take 4 (drop (off + n + 1) file)"
      by (simp add: drop_take add.commute add.left_commute)
    have d: "length (take (n + 5) (drop off file)) = n + 5"
      using False by simp
    show ?thesis
      using False a b c d
      by (simp add: Block_read_def read_safe_def Let_def kBlockTrailerSize_def
          off_def [symmetric] n_def [symmetric])
  qed
qed

text \<open>
  Claim C4, as amended. A physical record of a log file passes the verification exactly when
  the stored, unmasked checksum is the CRC32C of the type byte continued over the data; a
  block of a table file passes exactly when the stored, unmasked checksum is the CRC32C of the
  data continued over the type byte. A record or block that is cut short fails before the
  verification, and one whose checksum differs fails with \<open>block checksum mismatch\<close>.
\<close>

theorem checksum_order:
  "get_record s =
     (let n = nat (from_bytes_le (take 2 (drop 4 s)))
      in if length s < 7 + n then Inl Unexpected_EOF
         else if unmask_leveldb_crc32c (from_bytes_le (take 4 s))
                   = crc_update (crc [s ! 6]) (take n (drop 7 s))
         then Inr ((take n (drop 7 s), s ! 6), drop (7 + n) s)
         else Inl Block_checksum_mismatch) \<and>
   Block_read handle file =
     (let off = nat (offset handle); n = nat (size handle)
      in if length file < off + n + 5 then Inl Unexpected_EOF
         else if unmask_leveldb_crc32c (from_bytes_le (take 4 (drop (off + n + 1) file)))
                   = crc_update (crc (take n (drop off file))) [file ! (off + n)]
         then Inr (take n (drop off file), file ! (off + n))
         else Inl Block_checksum_mismatch)"
  using get_record_eq [of s] Block_read_eq [of handle "file"] by (rule conjI)

lemma crc_a:
  "crc_update (crc [0x01]) [0x61] = 1903099844"
  "crc_update (crc [0x61]) [0x01] = 2419345824"
  "crc_update (crc [0x61, 0x62]) [0x01] = unmask_leveldb_crc32c 0x5AC85845"
  "unmask_leveldb_crc32c 0xA20BCDB5 = 1903099844"
  "unmask_leveldb_crc32c 0x35C40B40 = 2419345824"
  "unmask_leveldb_crc32c 0x5AC85846 \<noteq> unmask_leveldb_crc32c 0x5AC85845"
  by code_simp+

theorem checksum_order_witness:
  "get_record record_a_type_first = Inr (([0x61], 0x1), []) \<and>
   get_record record_a_data_first = Inl Block_checksum_mismatch \<and>
   get_record (take 7 record_a_type_first) = Inl Unexpected_EOF \<and>
   Block_read \<lparr> offset = 2, size = 2 \<rparr> file_with_block_ab = Inr ([0x61, 0x62], 0x1) \<and>
   Block_read \<lparr> offset = 2, size = 2 \<rparr> (file_with_block_ab [5 := 0x46])
     = Inl Block_checksum_mismatch"
  using checksum_order [of record_a_type_first "\<lparr> offset = 2, size = 2 \<rparr>" file_with_block_ab]
    checksum_order [of record_a_data_first "\<lparr> offset = 2, size = 2 \<rparr>"
      "file_with_block_ab [5 := 0x46]"]
    checksum_order [of "take 7 record_a_type_first" "\<lparr> offset = 2, size = 2 \<rparr>" "[]"]
  by (simp add: record_a_type_first_def record_a_data_first_def file_with_block_ab_def crc_a
      Let_def)

text \<open>
  Claim C4 as stated fails for the records of a log file: the first record below stores the
  checksum of the type byte followed by the data and is accepted, although that checksum is
  not the one of the data followed by the type byte; the second record stores the checksum
  of the data followed by the type byte and is refused.
\<close>

theorem checksum_order_counterexample:
  "get_record record_a_type_first = Inr (([0x61], 0x1), []) \<and>
   unmask_leveldb_crc32c (from_bytes_le (take 4 record_a_type_first))
     \<noteq> crc_update (crc [0x61]) [0x1] \<and>
   get_record record_a_data_first = Inl Block_checksum_mismatch \<and>
   unmask_leveldb_crc32c (from_bytes_le (take 4 record_a_data_first))
     = crc_update (crc [0x61]) [0x1]"
  by code_simp

end
